theory Spec2Isabelle
  imports Main
begin

section \<open>The host interface used by the block parser\<close>

text \<open>
  The block parser of \<^verbatim>\<open>block.go\<close> talks to four collaborators of the goldmark
  library: text segments, the line reader, the parse context and a few byte helpers of
  package \<^verbatim>\<open>util\<close>. None of them is defined in this repository; each is modelled here
  by the part of its interface that \<^verbatim>\<open>block.go\<close> calls.
\<close>

subsection \<open>Segments and the math block node\<close>

record Segment =
  Start :: int
  Stop :: int
  Padding :: int

definition NewSegment :: "int \<Rightarrow> int \<Rightarrow> Segment" where
  "NewSegment a b = \<lparr>Start = a, Stop = b, Padding = 0\<rparr>"

definition NewSegmentPadding :: "int \<Rightarrow> int \<Rightarrow> int \<Rightarrow> Segment" where
  "NewSegmentPadding a b p = \<lparr>Start = a, Stop = b, Padding = p\<rparr>"

text \<open>
  Modelled from the spec: \<^verbatim>\<open>Segment.Value\<close> is not under src/. A span references a
  contiguous region of the source buffer plus a count of synthetic leading spaces to
  reinsert. A region outside the buffer has no text (\<open>None\<close>).
\<close>

definition Value :: "Segment \<Rightarrow> string \<Rightarrow> string option" where
  "Value t buffer =
     (if 0 \<le> Start t \<and> Start t \<le> Stop t \<and> Stop t \<le> int (length buffer) \<and> 0 \<le> Padding t
      then Some (replicate (nat (Padding t)) (CHR '' '')
                 @ take (nat (Stop t - Start t)) (drop (nat (Start t)) buffer))
      else None)"

text \<open>
  Modelled from the spec: \<^verbatim>\<open>NewMathBlock\<close> and the node type are not under src/. The
  Math Block Node owns an ordered sequence of spans, in insertion order; a new node has
  none, and \<^verbatim>\<open>Lines().Append\<close> adds one at the end.
\<close>

record MathBlock =
  Lines :: "Segment list"

definition NewMathBlock :: MathBlock where
  "NewMathBlock = \<lparr>Lines = []\<rparr>"

definition Lines_Append :: "MathBlock \<Rightarrow> Segment \<Rightarrow> MathBlock" where
  "Lines_Append node seg = node\<lparr>Lines := Lines node @ [seg]\<rparr>"

subsection \<open>Parser states, the reader and the parse context\<close>

text \<open>The three values of \<^verbatim>\<open>parser.State\<close> that the block parser returns.\<close>

datatype State = parser_NoChildren | parser_Close | parser_Continue_NoChildren

text \<open>
  The reader: what \<^verbatim>\<open>PeekLine\<close> returns (the current line and its segment), and the
  advance requests made so far, in order.
\<close>

datatype ReaderCall = Advance int | AdvanceAndSetPadding int int

record Reader =
  PeekLine_line :: string
  PeekLine_segment :: Segment
  calls :: "ReaderCall list"

definition reader_Advance :: "Reader \<Rightarrow> int \<Rightarrow> Reader" where
  "reader_Advance r n = r\<lparr>calls := calls r @ [Advance n]\<rparr>"

definition reader_AdvanceAndSetPadding :: "Reader \<Rightarrow> int \<Rightarrow> int \<Rightarrow> Reader" where
  "reader_AdvanceAndSetPadding r n p = r\<lparr>calls := calls r @ [AdvanceAndSetPadding n p]\<rparr>"


text \<open>
  The parse context: the block offset (\<open>-1\<close> when no block may start on the line) and a
  key/value store. \<^verbatim>\<open>mathBlockInfoKey\<close> is the key this package allocates; every other
  key belongs to somebody else. A stored value is a \<^verbatim>\<open>*mathBlockData\<close> or a value of
  another type; \<^verbatim>\<open>nil\<close> is \<open>None\<close>.
\<close>

record mathBlockData =
  indent :: int

datatype ContextKey = mathBlockInfoKey | otherKey nat

datatype ContextValue = BlockData mathBlockData | OtherValue

record Context =
  BlockOffset :: int
  store :: "ContextKey \<rightharpoonup> ContextValue"

definition pc_Get :: "Context \<Rightarrow> ContextKey \<Rightarrow> ContextValue option" where
  "pc_Get pc key = store pc key"

definition pc_Set :: "Context \<Rightarrow> ContextKey \<Rightarrow> ContextValue option \<Rightarrow> Context" where
  "pc_Set pc key v = pc\<lparr>store := (store pc)(key := v)\<rparr>"

subsection \<open>Byte helpers of package util\<close>

text \<open>
  Modelled from the spec: \<^verbatim>\<open>util.IsBlank\<close>, \<^verbatim>\<open>util.IndentWidth\<close> and
  \<^verbatim>\<open>util.DedentPosition\<close> belong to the goldmark library and are not under src/. Blank
  content is only whitespace (space, tab, line feed, carriage return), or the end of the
  line. The indentation width counts a
  space as one column and a tab up to the next multiple of four, and comes with the
  position of the first character that is neither. Dedenting by a width of zero starts at
  position zero with no padding; otherwise it skips the leading spaces and tabs and
  returns the columns in excess of the width as padding, and no padding for a line
  indented by less than the width, which is what the library does. The theorems below
  take the result of \<^verbatim>\<open>DedentPosition\<close> as it comes; only the evaluations at concrete
  lines compute it, and they all dedent by zero.
\<close>

definition IsSpace :: "char \<Rightarrow> bool" where
  "IsSpace c = (c = CHR '' '' \<or> c = CHR 0x09 \<or> c = CHR 0x0A \<or> c = CHR 0x0D)"

definition IsBlank :: "string \<Rightarrow> bool" where
  "IsBlank bs = list_all IsSpace bs"

definition TabWidth :: "nat \<Rightarrow> nat" where
  "TabWidth currentPos = 4 - currentPos mod 4"

fun IndentWidth_from :: "string \<Rightarrow> nat \<Rightarrow> nat \<Rightarrow> nat \<Rightarrow> nat \<times> nat" where
  "IndentWidth_from [] currentPos width pos = (width, pos)"
| "IndentWidth_from (b # bs) currentPos width pos =
     (if b = CHR '' '' then IndentWidth_from bs currentPos (width + 1) (pos + 1)
      else if b = CHR 0x09
        then IndentWidth_from bs currentPos (width + TabWidth (currentPos + width)) (pos + 1)
      else (width, pos))"

definition IndentWidth :: "string \<Rightarrow> nat \<Rightarrow> nat \<times> nat" where
  "IndentWidth bs currentPos = IndentWidth_from bs currentPos 0 0"

definition DedentPosition :: "string \<Rightarrow> nat \<Rightarrow> int \<Rightarrow> nat \<times> int" where
  "DedentPosition bs currentPos width =
     (if width = 0 then (0, 0)
      else (let (w, i) = IndentWidth_from bs currentPos 0 0
            in if int w \<ge> width then (i, int w - width) else (i, 0)))"

section \<open>The fence scans of block.go\<close>

text \<open>
  The counting loop \<^verbatim>\<open>for ; i < len(line) && line[i] == '$'; i++ {}\<close>, which occurs
  four times in \<^verbatim>\<open>block.go\<close>: it returns the index just after the run of fence
  characters that starts at \<open>i\<close>.
\<close>

function skipFence :: "string \<Rightarrow> nat \<Rightarrow> nat" where
  "skipFence bs i = (if i < length bs \<and> bs ! i = CHR ''$'' then skipFence bs (i + 1) else i)"
  by pat_completeness auto
termination
  by (relation "measure (\<lambda>(bs, i). length bs - i)") auto

declare skipFence.simps [simp del]

lemma skipFence_ge: "i \<le> skipFence bs i"
proof (induction bs i rule: skipFence.induct)
  case (1 bs i)
  show ?case
  proof (cases "i < length bs \<and> bs ! i = CHR ''$''")
    case True
    with "1" have "i + 1 \<le> skipFence bs (i + 1)" by simp
    with True show ?thesis by (subst skipFence.simps) simp
  next
    case False
    then show ?thesis by (subst skipFence.simps) auto
  qed
qed

lemma skipFence_gt: "i < length bs \<Longrightarrow> bs ! i = CHR ''$'' \<Longrightarrow> i < skipFence bs i"
  using skipFence_ge [of "i + 1" bs] by (subst skipFence.simps) simp

lemma skipFence_le: "i \<le> length bs \<Longrightarrow> skipFence bs i \<le> length bs"
proof (induction bs i rule: skipFence.induct)
  case (1 bs i)
  show ?case
  proof (cases "i < length bs \<and> bs ! i = CHR ''$''")
    case True
    with "1" show ?thesis by (subst skipFence.simps) simp
  next
    case False
    with "1.prems" show ?thesis by (subst skipFence.simps) auto
  qed
qed

text \<open>
  The scan of \<^verbatim>\<open>Open\<close> (lines 47 to 62) over \<^verbatim>\<open>remainingLine\<close>, started at \<open>j\<close>: the
  position of the first run of at least two fence characters with only blank content
  behind it, or \<open>-1\<close>. A rejected run is skipped: \<^verbatim>\<open>j = k - 1\<close>, then \<^verbatim>\<open>j++\<close>.
\<close>

function Open_closingPos :: "string \<Rightarrow> nat \<Rightarrow> int" where
  "Open_closingPos remainingLine j =
     (if int j < int (length remainingLine) - 1 then
        (if remainingLine ! j = CHR ''$'' then
           (if skipFence remainingLine j - j \<ge> 2
                \<and> IsBlank (drop (skipFence remainingLine j) remainingLine)
            then int j
            else Open_closingPos remainingLine (Suc (skipFence remainingLine j - 1)))
         else Open_closingPos remainingLine (j + 1))
      else -1)"
  by pat_completeness auto
termination
proof (relation "measure (\<lambda>(bs, j). length bs - j)", goal_cases)
  case 1
  show ?case by simp
next
  case (2 remainingLine j)
  then have "j < length remainingLine" by simp
  with 2 have "j < skipFence remainingLine j" by (simp add: skipFence_gt)
  with \<open>j < length remainingLine\<close> show ?case by simp
next
  case (3 remainingLine j)
  then show ?case by simp
qed

declare Open_closingPos.simps [simp del]

text \<open>The scan of \<^verbatim>\<open>Continue\<close> (lines 117 to 132) over the whole \<^verbatim>\<open>line\<close>.\<close>

function Continue_closingPos :: "string \<Rightarrow> nat \<Rightarrow> int" where
  "Continue_closingPos line j =
     (if int j < int (length line) - 1 then
        (if line ! j = CHR ''$'' then
           (if skipFence line j - j \<ge> 2 \<and> IsBlank (drop (skipFence line j) line)
            then int j
            else Continue_closingPos line (Suc (skipFence line j - 1)))
         else Continue_closingPos line (j + 1))
      else -1)"
  by pat_completeness auto
termination
proof (relation "measure (\<lambda>(bs, j). length bs - j)", goal_cases)
  case 1
  show ?case by simp
next
  case (2 line j)
  then have "j < length line" by simp
  with 2 have "j < skipFence line j" by (simp add: skipFence_gt)
  with \<open>j < length line\<close> show ?case by simp
next
  case (3 line j)
  then show ?case by simp
qed

declare Continue_closingPos.simps [simp del]

text \<open>
  The same two loops once more, written with no argument for their termination: the
  counting loop and the scan as partial functions, where a run that never returns has
  the value \<open>None\<close>.
\<close>

partial_function (option) fenceRun_loop :: "string \<Rightarrow> nat \<Rightarrow> nat option" where
  "fenceRun_loop bs i =
     (if i < length bs \<and> bs ! i = CHR ''$'' then fenceRun_loop bs (i + 1) else Some i)"

partial_function (option) fenceScan_loop :: "string \<Rightarrow> nat \<Rightarrow> int option" where
  "fenceScan_loop bs j =
     (if int j < int (length bs) - 1 then
        (if bs ! j = CHR ''$'' then
           Option.bind (fenceRun_loop bs j)
             (\<lambda>k. if k - j \<ge> 2 \<and> IsBlank (drop k bs) then Some (int j)
                  else fenceScan_loop bs (Suc (k - 1)))
         else fenceScan_loop bs (j + 1))
      else Some (-1))"

section \<open>Open, Continue and Close\<close>

text \<open>
  A run-time panic of the Go code is a value: an index outside the line, or a context
  value that is not a \<^verbatim>\<open>*mathBlockData\<close> at the type assertion.
\<close>

datatype error = IndexOutOfRange | TypeAssertionFailed

text \<open>
  \<^verbatim>\<open>Open\<close> returns the node (\<open>None\<close> for \<^verbatim>\<open>nil\<close>), the parser state and the context,
  which it may have updated. It never advances the reader.
\<close>

definition Open :: "Reader \<Rightarrow> Context \<Rightarrow> error + (MathBlock option \<times> State \<times> Context)" where
  "Open reader pc =
     (let line = PeekLine_line reader; segment = PeekLine_segment reader;
          pos = BlockOffset pc
      in if pos = -1 then Inr (None, parser_NoChildren, pc)
         else if pos \<ge> int (length line) then Inr (None, parser_NoChildren, pc)
         else if pos < 0 then Inl IndexOutOfRange
         else if line ! nat pos \<noteq> CHR ''$'' then Inr (None, parser_NoChildren, pc)
         else
           let i = skipFence line (nat pos)
           in if int i - pos < 2 then Inr (None, parser_NoChildren, pc)
              else
                let remainingLine = drop i line;
                    closingPos = Open_closingPos remainingLine 0
                in if closingPos > 0 then
                     let node = NewMathBlock;
                         content = take (nat closingPos) remainingLine;
                         node = (if length content > 0
                                 then Lines_Append node
                                        (NewSegment (Start segment + int i)
                                                    (Start segment + int i + closingPos))
                                 else node)
                     in Inr (Some node, parser_Close, pc)
                   else
                     let pc = pc_Set pc mathBlockInfoKey (Some (BlockData \<lparr>indent = pos\<rparr>));
                         node = NewMathBlock;
                         node = (if length remainingLine > 0 \<and> \<not> IsBlank remainingLine
                                 then Lines_Append node
                                        (NewSegment (Start segment + int i) (Stop segment))
                                 else node)
                     in Inr (Some node, parser_NoChildren, pc))"

text \<open>
  The test of lines 103 to 109 of \<^verbatim>\<open>Continue\<close>: the line is indented by less than
  four columns and its first character after the indentation starts a run of at least
  two fence characters with only blank content behind it.
\<close>

definition closingFenceAtStart :: "string \<Rightarrow> bool" where
  "closingFenceAtStart line =
     (let (w, pos) = IndentWidth line 0
      in w < 4 \<and>
         (let i = skipFence line pos; length = i - pos
          in length \<ge> 2 \<and> IsBlank (drop i line)))"

text \<open>
  \<^verbatim>\<open>Continue\<close> returns the parser state, the node and the reader; it reads the context
  and leaves it as it is.
\<close>

definition Continue :: "MathBlock \<Rightarrow> Reader \<Rightarrow> Context \<Rightarrow> error + (State \<times> MathBlock \<times> Reader)" where
  "Continue node reader pc =
     (let line = PeekLine_line reader; segment = PeekLine_segment reader
      in case pc_Get pc mathBlockInfoKey of
           None \<Rightarrow> Inr (parser_Close, node, reader)
         | Some OtherValue \<Rightarrow> Inl TypeAssertionFailed
         | Some (BlockData data) \<Rightarrow>
             if closingFenceAtStart line then
               Inr (parser_Close, node,
                    reader_Advance reader (Stop segment - Start segment - Padding segment))
             else
               let closingPos = Continue_closingPos line 0
               in if closingPos \<ge> 0 then
                    let (pos, padding) = DedentPosition line 0 (indent data);
                        node = (if closingPos > int pos
                                then Lines_Append node
                                       (NewSegmentPadding (Start segment + int pos)
                                          (Start segment + closingPos) padding)
                                else node)
                    in Inr (parser_Close, node,
                            reader_Advance reader
                              (Stop segment - Start segment - Padding segment))
                  else
                    let (pos, padding) = DedentPosition line 0 (indent data);
                        seg = NewSegmentPadding (Start segment + int pos) (Stop segment) padding
                    in Inr (parser_Continue_NoChildren, Lines_Append node seg,
                            reader_AdvanceAndSetPadding reader
                              (Stop segment - Start segment - int pos - 1) padding))"

definition Close :: "MathBlock \<Rightarrow> Reader \<Rightarrow> Context \<Rightarrow> Context" where
  "Close node reader pc = pc_Set pc mathBlockInfoKey None"

text \<open>
  A text contains a blank-terminated fence run when some position of it starts a run of
  at least two fence characters with only blank content behind it.
\<close>

definition containsBlankTerminatedFence :: "string \<Rightarrow> bool" where
  "containsBlankTerminatedFence C =
     list_ex (\<lambda>j. skipFence C j - j \<ge> 2 \<and> IsBlank (drop (skipFence C j) C)) [0..<length C]"

section \<open>Facts about runs of fence characters\<close>

lemma skipFence_stop:
  "\<not> (i < length bs \<and> bs ! i = CHR ''$'') \<Longrightarrow> skipFence bs i = i"
  by (subst skipFence.simps) auto

lemma skipFence_step:
  "i < length bs \<Longrightarrow> bs ! i = CHR ''$'' \<Longrightarrow> skipFence bs i = skipFence bs (Suc i)"
  by (subst skipFence.simps) simp

lemma skipFence_run:
  "tail = [] \<or> hd tail \<noteq> CHR ''$'' \<Longrightarrow>
   skipFence (pre @ replicate n (CHR ''$'') @ tail) (length pre) = length pre + n"
proof (induction n arbitrary: pre)
  case 0
  have "\<not> (length pre < length (pre @ tail) \<and> (pre @ tail) ! length pre = CHR ''$'')"
    using "0.prems" by (cases tail) auto
  then have "skipFence (pre @ tail) (length pre) = length pre"
    by (rule skipFence_stop)
  then show ?case by simp
next
  case (Suc n)
  let ?bs = "pre @ replicate (Suc n) (CHR ''$'') @ tail"
  have bs: "?bs = (pre @ [CHR ''$'']) @ replicate n (CHR ''$'') @ tail" by simp
  have "skipFence ((pre @ [CHR ''$'']) @ replicate n (CHR ''$'') @ tail) (length (pre @ [CHR ''$'']))
        = length (pre @ [CHR ''$'']) + n"
    using Suc.prems by (rule Suc.IH)
  then have next_eq: "skipFence ?bs (Suc (length pre)) = length pre + Suc n"
    by (simp only: bs) simp
  have "length pre < length ?bs" and "?bs ! length pre = CHR ''$''"
    by simp_all
  then have "skipFence ?bs (length pre) = skipFence ?bs (Suc (length pre))"
    by (rule skipFence_step)
  with next_eq show ?case by simp
qed

lemma fence_not_space: "\<not> IsSpace (CHR ''$'')"
  by (simp add: IsSpace_def)

lemma fence_not_blank: "CHR ''$'' \<in> set xs \<Longrightarrow> \<not> IsBlank xs"
  unfolding IsBlank_def using fence_not_space by (induction xs) auto

lemma blank_no_fence_head: "IsBlank tail \<Longrightarrow> tail = [] \<or> hd tail \<noteq> CHR ''$''"
  using fence_not_blank [of tail] by (cases tail) auto

lemma closingFenceAtStart_run:
  assumes "IndentWidth line 0 = (w, pos)" and "w < 4"
    and "drop pos line = replicate n (CHR ''$'') @ tail" and "2 \<le> n" and "IsBlank tail"
  shows "closingFenceAtStart line"
proof -
  have "take pos line @ drop pos line = line" by simp
  then have line: "take pos line @ replicate n (CHR ''$'') @ tail = line"
    by (simp only: assms(3))
  have "pos < length line"
  proof (rule ccontr)
    assume "\<not> pos < length line"
    then have "drop pos line = []" by simp
    with assms(3,4) show False by simp
  qed
  then have len: "length (take pos line) = pos" by simp
  have "skipFence (take pos line @ replicate n (CHR ''$'') @ tail) (length (take pos line))
        = length (take pos line) + n"
    using blank_no_fence_head [OF assms(5)] by (rule skipFence_run)
  then have sk: "skipFence line pos = pos + n" by (simp only: line len)
  have "drop (n + pos) line = drop n (drop pos line)" by (simp only: drop_drop)
  also have "\<dots> = tail" by (simp add: assms(3))
  finally have dr: "drop (pos + n) line = tail" by (simp add: add.commute)
  show ?thesis
    by (simp add: closingFenceAtStart_def Let_def assms(1,2,4,5) sk dr)
qed

lemma skipFence_inside:
  "bs = C @ x \<Longrightarrow> last C \<noteq> CHR ''$'' \<Longrightarrow> j < length C \<Longrightarrow> skipFence bs j < length C"
proof (induction bs j rule: skipFence.induct)
  case (1 bs j)
  show ?case
  proof (cases "bs ! j = CHR ''$''")
    case True
    from "1.prems" have jb: "j < length bs" by simp
    from "1.prems" have "bs ! j = C ! j" by (simp add: nth_append)
    with True have cj: "C ! j = CHR ''$''" by simp
    have "Suc j < length C"
    proof (rule ccontr)
      assume "\<not> Suc j < length C"
      with "1.prems" have "j = length C - 1" and "C \<noteq> []" by auto
      then have "last C = C ! j" by (simp add: last_conv_nth)
      with cj "1.prems" show False by simp
    qed
    with "1.IH" jb True "1.prems" have "skipFence bs (j + 1) < length C" by simp
    with jb True show ?thesis by (simp add: skipFence_step)
  next
    case False
    then have "skipFence bs j = j" by (simp add: skipFence_stop)
    with "1.prems" show ?thesis by simp
  qed
qed

lemma Open_closingPos_payload:
  "bs = C @ ''$$'' \<Longrightarrow> last C \<noteq> CHR ''$'' \<Longrightarrow> C \<noteq> [] \<Longrightarrow> j \<le> length C
   \<Longrightarrow> Open_closingPos bs j = int (length C)"
proof (induction bs j rule: Open_closingPos.induct)
  case (1 bs j)
  from "1.prems" have len: "length bs = length C + 2" by simp
  with "1.prems" have cond: "int j < int (length bs) - 1" by simp
  show ?case
  proof (cases "j = length C")
    case True
    have "skipFence (C @ replicate 2 (CHR ''$'') @ []) (length C) = length C + 2"
      by (rule skipFence_run) simp
    then have sk: "skipFence bs j = j + 2"
      using "1.prems" True by (simp add: numeral_2_eq_2)
    have bj: "bs ! j = CHR ''$''" using "1.prems" True by (simp add: nth_append)
    have bl: "IsBlank (drop (Suc (Suc j)) bs)" using len True by (simp add: IsBlank_def)
    have "Open_closingPos bs j = int j"
      by (subst Open_closingPos.simps) (simp add: cond bj sk bl)
    with True show ?thesis by simp
  next
    case False
    with "1.prems" have jl: "j < length C" by simp
    show ?thesis
    proof (cases "bs ! j = CHR ''$''")
      case True
      let ?k = "skipFence bs j"
      have kl: "?k < length C" using "1.prems" jl by (simp add: skipFence_inside)
      have kg: "j < ?k" using True len jl by (simp add: skipFence_gt)
      have "drop ?k bs = drop ?k C @ ''$$''" using kl "1.prems" by simp
      then have nb: "\<not> IsBlank (drop ?k bs)" by (simp add: fence_not_blank)
      have "Open_closingPos bs (Suc (?k - 1)) = int (length C)"
        using "1.IH"(1) [OF cond True] nb "1.prems" kl kg by simp
      then show ?thesis
        by (subst Open_closingPos.simps) (simp add: cond True nb)
    next
      case False
      have "Open_closingPos bs (j + 1) = int (length C)"
        using "1.IH"(2) [OF cond False] "1.prems" jl by simp
      then show ?thesis
        by (subst Open_closingPos.simps) (simp add: cond False)
    qed
  qed
qed

lemma fenceRun_loop_returns: "fenceRun_loop bs i = Some (skipFence bs i)"
proof (induction bs i rule: skipFence.induct)
  case (1 bs i)
  show ?case
  proof (cases "i < length bs \<and> bs ! i = CHR ''$''")
    case True
    with "1" have "fenceRun_loop bs (i + 1) = Some (skipFence bs (i + 1))" by simp
    with True show ?thesis
      by (subst fenceRun_loop.simps, subst skipFence.simps) simp
  next
    case False
    then show ?thesis
      by (subst fenceRun_loop.simps, subst skipFence.simps) auto
  qed
qed

lemma fenceScan_loop_returns_Open: "fenceScan_loop bs j = Some (Open_closingPos bs j)"
proof (induction bs j rule: Open_closingPos.induct)
  case (1 bs j)
  show ?case
    by (subst fenceScan_loop.simps, subst Open_closingPos.simps)
      (use "1" in \<open>auto simp: fenceRun_loop_returns\<close>)
qed

lemma fenceScan_loop_returns_Continue: "fenceScan_loop bs j = Some (Continue_closingPos bs j)"
proof (induction bs j rule: Continue_closingPos.induct)
  case (1 bs j)
  show ?case
    by (subst fenceScan_loop.simps, subst Continue_closingPos.simps)
      (use "1" in \<open>auto simp: fenceRun_loop_returns\<close>)
qed

lemma whitespace_blank:
  "set tail \<subseteq> {CHR '' '', CHR 0x09, CHR 0x0A, CHR 0x0D} \<Longrightarrow> IsBlank tail"
  unfolding IsBlank_def by (induction tail) (simp_all add: IsSpace_def)

lemma IndentWidth_from_spaces:
  "rest = [] \<or> (hd rest \<noteq> CHR '' '' \<and> hd rest \<noteq> CHR 0x09) \<Longrightarrow>
   IndentWidth_from (replicate m (CHR '' '') @ rest) cur w0 p0 = (w0 + m, p0 + m)"
proof (induction m arbitrary: w0 p0)
  case 0
  then show ?case by (cases rest) auto
next
  case (Suc m)
  from Suc.IH [OF Suc.prems, of "w0 + 1" "p0 + 1"] show ?case by simp
qed

lemma IndentWidth_spaces:
  "rest = [] \<or> (hd rest \<noteq> CHR '' '' \<and> hd rest \<noteq> CHR 0x09) \<Longrightarrow>
   IndentWidth (replicate m (CHR '' '') @ rest) 0 = (m, m)"
  using IndentWidth_from_spaces [of rest m 0 0 0] by (simp add: IndentWidth_def)

lemma IndentWidth_from_mono:
  "IndentWidth_from bs cur w0 p0 = (w, p) \<Longrightarrow> w0 \<le> w"
proof (induction bs arbitrary: w0 p0)
  case Nil
  then show ?case by simp
next
  case (Cons b bs)
  show ?case
  proof (cases "b = CHR '' ''")
    case True
    with Cons.prems have "IndentWidth_from bs cur (w0 + 1) (p0 + 1) = (w, p)" by simp
    from Cons.IH [OF this] show ?thesis by simp
  next
    case False
    show ?thesis
    proof (cases "b = CHR 0x09")
      case True
      with False Cons.prems
      have "IndentWidth_from bs cur (w0 + TabWidth (cur + w0)) (p0 + 1) = (w, p)" by simp
      from Cons.IH [OF this] show ?thesis by simp
    next
      case nt: False
      with False Cons.prems show ?thesis by simp
    qed
  qed
qed

lemma IndentWidth_from_small:
  "IndentWidth_from bs 0 w0 p0 = (w, p) \<Longrightarrow> w < 4 \<Longrightarrow>
   \<exists>m. m \<le> length bs \<and> take m bs = replicate m (CHR '' '') \<and> p = p0 + m \<and> w = w0 + m"
proof (induction bs arbitrary: w0 p0)
  case Nil
  then show ?case by simp
next
  case (Cons b bs)
  show ?case
  proof (cases "b = CHR '' ''")
    case True
    with Cons.prems have "IndentWidth_from bs 0 (w0 + 1) (p0 + 1) = (w, p)" by simp
    from Cons.IH [OF this Cons.prems(2)] obtain m where
      m: "m \<le> length bs" "take m bs = replicate m (CHR '' '')" "p = p0 + 1 + m" "w = w0 + 1 + m"
      by auto
    with True have "Suc m \<le> length (b # bs) \<and> take (Suc m) (b # bs) = replicate (Suc m) (CHR '' '')
        \<and> p = p0 + Suc m \<and> w = w0 + Suc m" by simp
    then show ?thesis by blast
  next
    case False
    show ?thesis
    proof (cases "b = CHR 0x09")
      case True
      with False Cons.prems
      have "IndentWidth_from bs 0 (w0 + TabWidth (0 + w0)) (p0 + 1) = (w, p)" by simp
      then have "w0 + TabWidth (0 + w0) \<le> w" by (rule IndentWidth_from_mono)
      moreover have "4 \<le> w0 + TabWidth (0 + w0)"
        unfolding TabWidth_def using mod_less_eq_dividend [of w0 4] by simp
      ultimately show ?thesis using Cons.prems(2) by simp
    next
      case nt: False
      with False Cons.prems have "p = p0 + 0 \<and> w = w0 + 0" by simp
      then have "0 \<le> length (b # bs) \<and> take 0 (b # bs) = replicate 0 (CHR '' '')
          \<and> p = p0 + 0 \<and> w = w0 + 0" by simp
      then show ?thesis by blast
    qed
  qed
qed

lemma skipFence_fence:
  "i \<le> q \<Longrightarrow> q < skipFence bs i \<Longrightarrow> q < length bs \<and> bs ! q = CHR ''$''"
proof (induction bs i rule: skipFence.induct)
  case (1 bs i)
  show ?case
  proof (cases "i < length bs \<and> bs ! i = CHR ''$''")
    case True
    then have st: "skipFence bs i = skipFence bs (Suc i)" by (simp add: skipFence_step)
    show ?thesis
    proof (cases "q = i")
      case True
      with \<open>i < length bs \<and> bs ! i = CHR ''$''\<close> show ?thesis by simp
    next
      case False
      with "1.prems" st have "i + 1 \<le> q" and "q < skipFence bs (i + 1)" by simp_all
      with "1.IH" True show ?thesis by blast
    qed
  next
    case False
    then have "skipFence bs i = i" by (rule skipFence_stop)
    with "1.prems" show ?thesis by simp
  qed
qed

text \<open>
  The scan of \<^verbatim>\<open>Continue\<close> against the bytes of the line. A run of at least two fence
  characters that has only blank content behind it and no fence character in front of it
  is found, at its first character; and a position the scan returns is the start of such
  a run.
\<close>

lemma Continue_closingPos_run:
  "bs = C @ replicate n (CHR ''$'') @ tail \<Longrightarrow> C = [] \<or> last C \<noteq> CHR ''$'' \<Longrightarrow> 2 \<le> n
   \<Longrightarrow> IsBlank tail \<Longrightarrow> j \<le> length C \<Longrightarrow> Continue_closingPos bs j = int (length C)"
proof (induction bs j rule: Continue_closingPos.induct)
  case (1 bs j)
  from "1.prems" have len: "length bs = length C + n + length tail" by simp
  with "1.prems" have cond: "int j < int (length bs) - 1" by simp
  show ?case
  proof (cases "j = length C")
    case True
    have "skipFence (C @ replicate n (CHR ''$'') @ tail) (length C) = length C + n"
      using blank_no_fence_head [OF "1.prems"(4)] by (rule skipFence_run)
    then have sk: "skipFence bs j = j + n" using "1.prems"(1) True by simp
    have bj: "bs ! j = CHR ''$''" using "1.prems" True by (simp add: nth_append)
    have "drop (j + n) bs = tail" using "1.prems"(1) True by simp
    then have bl: "IsBlank (drop (j + n) bs)" using "1.prems"(4) by simp
    have "Continue_closingPos bs j = int j"
      using "1.prems"(3) by (subst Continue_closingPos.simps) (simp add: cond bj sk bl)
    with True show ?thesis by simp
  next
    case False
    with "1.prems" have jl: "j < length C" by simp
    then have ne: "C \<noteq> []" by auto
    with "1.prems" have lc: "last C \<noteq> CHR ''$''" by simp
    show ?thesis
    proof (cases "bs ! j = CHR ''$''")
      case True
      let ?k = "skipFence bs j"
      have kl: "?k < length C" using "1.prems"(1) lc jl by (rule skipFence_inside)
      have kg: "j < ?k" using True len jl by (simp add: skipFence_gt)
      have "drop ?k bs = drop ?k C @ replicate n (CHR ''$'') @ tail"
        using kl "1.prems"(1) by simp
      moreover have "CHR ''$'' \<in> set (replicate n (CHR ''$''))" using "1.prems"(3) by simp
      ultimately have nb: "\<not> IsBlank (drop ?k bs)" by (simp add: fence_not_blank)
      have "Continue_closingPos bs (Suc (?k - 1)) = int (length C)"
        using "1.IH"(1) [OF cond True] nb "1.prems" kl kg by simp
      then show ?thesis
        by (subst Continue_closingPos.simps) (simp add: cond True nb)
    next
      case False
      have "Continue_closingPos bs (j + 1) = int (length C)"
        using "1.IH"(2) [OF cond False] "1.prems" jl by simp
      then show ?thesis
        by (subst Continue_closingPos.simps) (simp add: cond False)
    qed
  qed
qed

text \<open>
  The start-of-line test against the bytes of the line: on a line that holds a
  blank-terminated run, the test succeeds exactly when fewer than four spaces, and
  nothing else, stand in front of the run.
\<close>

lemma closingFenceAtStart_spaces:
  assumes "line = replicate m (CHR '' '') @ replicate n (CHR ''$'') @ tail"
    and "m < 4" and "2 \<le> n" and "IsBlank tail"
  shows "closingFenceAtStart line"
proof -
  have "replicate n (CHR ''$'') @ tail = []
        \<or> (hd (replicate n (CHR ''$'') @ tail) \<noteq> CHR '' ''
            \<and> hd (replicate n (CHR ''$'') @ tail) \<noteq> CHR 0x09)"
    using assms(3) by (cases n) auto
  then have iw: "IndentWidth line 0 = (m, m)"
    unfolding assms(1) by (rule IndentWidth_spaces)
  have dr: "drop m line = replicate n (CHR ''$'') @ tail" by (simp add: assms(1))
  from iw assms(2) dr assms(3,4) show ?thesis by (rule closingFenceAtStart_run)
qed

lemma closingFenceAtStart_only_spaces:
  assumes line: "line = pre @ replicate n (CHR ''$'') @ tail"
    and pre: "pre = [] \<or> last pre \<noteq> CHR ''$''" and n: "2 \<le> n"
    and cf: "closingFenceAtStart line"
  shows "length pre < 4 \<and> pre = replicate (length pre) (CHR '' '')"
proof -
  obtain w pos where iw: "IndentWidth line 0 = (w, pos)" by (cases "IndentWidth line 0")
  let ?k = "skipFence line pos"
  from cf iw have w4: "w < 4" and run: "2 \<le> ?k - pos" and bl: "IsBlank (drop ?k line)"
    by (simp_all add: closingFenceAtStart_def Let_def)
  from iw have "IndentWidth_from line 0 0 0 = (w, pos)" by (simp add: IndentWidth_def)
  from IndentWidth_from_small [OF this w4]
  have pl: "pos \<le> length line" and sp: "take pos line = replicate pos (CHR '' '')"
    and pw: "pos = w" by auto
  from run have "pos \<le> pos" and "pos < ?k" by simp_all
  then have fp: "pos < length line \<and> line ! pos = CHR ''$''" by (rule skipFence_fence)
  have fl: "line ! length pre = CHR ''$''" using line n by (cases n) (auto simp: nth_append)
  have a: "pos \<le> length pre"
  proof (rule ccontr)
    assume "\<not> pos \<le> length pre"
    then have lt: "length pre < pos" by simp
    then have "line ! length pre = take pos line ! length pre" by simp
    also have "\<dots> = CHR '' ''" using lt by (simp only: sp) simp
    finally show False using fl by simp
  qed
  have b: "\<not> pos < length pre"
  proof
    assume lt: "pos < length pre"
    then have ne: "pre \<noteq> []" by auto
    with pre have lp: "last pre \<noteq> CHR ''$''" by simp
    let ?q = "length pre - 1"
    have q: "pos \<le> ?q" "?q < length pre" using lt by simp_all
    have lq: "line ! ?q = last pre" using ne q line by (simp add: nth_append last_conv_nth)
    have "?q < ?k"
    proof (rule ccontr)
      assume "\<not> ?q < ?k"
      then have "?k \<le> length pre" using q by simp
      then have "drop ?k line = drop ?k pre @ replicate n (CHR ''$'') @ tail"
        by (simp add: line)
      moreover have "CHR ''$'' \<in> set (replicate n (CHR ''$''))" using n by simp
      ultimately have "\<not> IsBlank (drop ?k line)" by (simp add: fence_not_blank)
      with bl show False by simp
    qed
    with q(1) have "line ! ?q = CHR ''$''" using skipFence_fence [of pos ?q line] by simp
    with lq lp show False by simp
  qed
  from a b have eq: "pos = length pre" by simp
  have "take pos line = pre" by (simp add: eq line)
  with sp eq have "pre = replicate (length pre) (CHR '' '')" by simp
  moreover from eq pw w4 have "length pre < 4" by simp
  ultimately show ?thesis by simp
qed

lemma skipFence_shape:
  "i \<le> length bs \<Longrightarrow>
   drop i bs = replicate (skipFence bs i - i) (CHR ''$'') @ drop (skipFence bs i) bs"
proof (induction bs i rule: skipFence.induct)
  case (1 bs i)
  show ?case
  proof (cases "i < length bs \<and> bs ! i = CHR ''$''")
    case True
    then have st: "skipFence bs i = skipFence bs (Suc i)" by (simp add: skipFence_step)
    from True "1.IH" have ih: "drop (Suc i) bs
        = replicate (skipFence bs (Suc i) - Suc i) (CHR ''$'') @ drop (skipFence bs (Suc i)) bs"
      by simp
    have ge: "Suc i \<le> skipFence bs (Suc i)" by (rule skipFence_ge)
    have "drop i bs = bs ! i # drop (Suc i) bs"
      by (rule Cons_nth_drop_Suc [symmetric]) (use True in simp)
    also have "\<dots> = CHR ''$'' # replicate (skipFence bs (Suc i) - Suc i) (CHR ''$'')
                       @ drop (skipFence bs (Suc i)) bs"
      using True ih by simp
    also have "\<dots> = replicate (Suc (skipFence bs (Suc i) - Suc i)) (CHR ''$'')
                       @ drop (skipFence bs (Suc i)) bs" by simp
    also have "Suc (skipFence bs (Suc i) - Suc i) = skipFence bs (Suc i) - i" using ge by simp
    finally show ?thesis by (simp only: st)
  next
    case False
    then have "skipFence bs i = i" by (rule skipFence_stop)
    then show ?thesis by simp
  qed
qed

lemma Continue_closingPos_sound:
  "Continue_closingPos line j = closingPos \<Longrightarrow> 0 \<le> closingPos \<Longrightarrow>
   \<exists>n tail. 2 \<le> n \<and> IsBlank tail \<and> int j \<le> closingPos \<and> nat closingPos < length line
     \<and> drop (nat closingPos) line = replicate n (CHR ''$'') @ tail"
proof (induction line j rule: Continue_closingPos.induct)
  case (1 line j)
  show ?case
  proof (cases "int j < int (length line) - 1")
    case False
    then have "Continue_closingPos line j = -1" by (subst Continue_closingPos.simps) simp
    with "1.prems" show ?thesis by simp
  next
    case cond: True
    show ?thesis
    proof (cases "line ! j = CHR ''$''")
      case False
      then have "Continue_closingPos line j = Continue_closingPos line (j + 1)"
        using cond by (subst Continue_closingPos.simps) simp
      with "1.prems" "1.IH"(2) [OF cond False] show ?thesis by fastforce
    next
      case True
      let ?k = "skipFence line j"
      show ?thesis
      proof (cases "2 \<le> ?k - j \<and> IsBlank (drop ?k line)")
        case found: True
        then have "Continue_closingPos line j = int j"
          using cond True by (subst Continue_closingPos.simps) simp
        with "1.prems" have cp: "closingPos = int j" by simp
        have "drop j line = replicate (?k - j) (CHR ''$'') @ drop ?k line"
          using cond by (intro skipFence_shape) simp
        with found cp cond show ?thesis by auto
      next
        case nf: False
        then have "Continue_closingPos line j = Continue_closingPos line (Suc (?k - 1))"
          using cond True by (subst Continue_closingPos.simps) auto
        moreover have "j < ?k" using cond True by (simp add: skipFence_gt)
        ultimately show ?thesis using "1.prems" "1.IH"(1) [OF cond True nf] by fastforce
      qed
    qed
  qed
qed

section \<open>Properties of Open\<close>

text \<open>
  C1. On the line \<^verbatim>\<open>$$$$\<close> at entry column 0 the opening run takes all four fence
  characters, so nothing is left to scan for a closing fence: \<^verbatim>\<open>Open\<close> stores the
  per-block state and returns an open node with no spans in state \<^verbatim>\<open>NoChildren\<close>, not a
  completed one, and \<^verbatim>\<open>Continue\<close> then takes the next line into the block.
\<close>

theorem Open_four_fences_opens_multi_line:
  "Open \<lparr>PeekLine_line = ''$$$$'',
          PeekLine_segment = \<lparr>Start = 0, Stop = 4, Padding = 0\<rparr>, calls = []\<rparr>
        \<lparr>BlockOffset = 0, store = Map.empty\<rparr>
   = Inr (Some \<lparr>Lines = []\<rparr>, parser_NoChildren,
          \<lparr>BlockOffset = 0, store = [mathBlockInfoKey \<mapsto> BlockData \<lparr>indent = 0\<rparr>]\<rparr>)
   \<and> Continue \<lparr>Lines = []\<rparr>
        \<lparr>PeekLine_line = ''after'',
           PeekLine_segment = \<lparr>Start = 5, Stop = 10, Padding = 0\<rparr>, calls = []\<rparr>
        \<lparr>BlockOffset = 0, store = [mathBlockInfoKey \<mapsto> BlockData \<lparr>indent = 0\<rparr>]\<rparr>
   = Inr (parser_Continue_NoChildren, \<lparr>Lines = [\<lparr>Start = 5, Stop = 10, Padding = 0\<rparr>]\<rparr>,
          \<lparr>PeekLine_line = ''after'',
             PeekLine_segment = \<lparr>Start = 5, Stop = 10, Padding = 0\<rparr>,
             calls = [AdvanceAndSetPadding 4 0]\<rparr>)"
proof -
  have a: "skipFence ''$$$$'' 0 = 4" by code_simp
  have b: "Open_closingPos [] 0 = -1" by code_simp
  have c: "closingFenceAtStart ''after'' = False" by code_simp
  have d: "Continue_closingPos ''after'' 0 = -1" by code_simp
  show ?thesis
    by (simp add: Open_def Continue_def Let_def a b c d NewMathBlock_def pc_Set_def pc_Get_def
        DedentPosition_def NewSegmentPadding_def Lines_Append_def reader_AdvanceAndSetPadding_def
        IsBlank_def)
qed

text \<open>
  C2, as amended. For every line \<^verbatim>\<open>$$C$$\<close> at entry column 0 with nothing after the
  trailing fence, where \<open>C\<close> is not empty and neither begins nor ends with the fence
  character, \<^verbatim>\<open>Open\<close> returns a completed node with exactly one span, and the text of
  that span in the source buffer is \<open>C\<close>. Fence runs inside \<open>C\<close> do not matter.
\<close>

theorem Open_same_line_payload:
  assumes "C \<noteq> []" and "hd C \<noteq> CHR ''$''" and "last C \<noteq> CHR ''$''"
    and "PeekLine_line reader = ''$$'' @ C @ ''$$''" and "BlockOffset pc = 0"
  shows "Open reader pc
         = Inr (Some \<lparr>Lines = [\<lparr>Start = Start (PeekLine_segment reader) + 2,
                                 Stop = Start (PeekLine_segment reader) + 2 + int (length C),
                                 Padding = 0\<rparr>]\<rparr>,
                parser_Close, pc)
         \<and> (\<forall>pre post. Start (PeekLine_segment reader) = int (length pre) \<longrightarrow>
               Value \<lparr>Start = Start (PeekLine_segment reader) + 2,
                      Stop = Start (PeekLine_segment reader) + 2 + int (length C),
                      Padding = 0\<rparr>
                 (pre @ PeekLine_line reader @ post) = Some C)"
proof (intro conjI allI impI)
  let ?line = "PeekLine_line reader"
  have "skipFence ([] @ replicate 2 (CHR ''$'') @ (C @ ''$$'')) (length ([]::string))
        = length ([]::string) + 2"
    using assms(1,2) by (intro skipFence_run) (cases C, auto)
  then have sk: "skipFence ?line 0 = 2" by (simp add: assms(4) numeral_2_eq_2)
  have dr: "drop 2 ?line = C @ ''$$''" by (simp add: assms(4))
  have cp: "Open_closingPos (C @ ''$$'') 0 = int (length C)"
    using assms(1,3) by (intro Open_closingPos_payload) simp_all
  have l0: "?line ! 0 = CHR ''$''" by (simp add: assms(4))
  show "Open reader pc
         = Inr (Some \<lparr>Lines = [\<lparr>Start = Start (PeekLine_segment reader) + 2,
                                 Stop = Start (PeekLine_segment reader) + 2 + int (length C),
                                 Padding = 0\<rparr>]\<rparr>,
                parser_Close, pc)"
    using assms(1)
    by (simp add: Open_def Let_def assms(5) sk dr cp l0 NewMathBlock_def Lines_Append_def
        NewSegment_def) (simp add: assms(4))
next
  fix pre post :: string
  assume "Start (PeekLine_segment reader) = int (length pre)"
  then show "Value \<lparr>Start = Start (PeekLine_segment reader) + 2,
                      Stop = Start (PeekLine_segment reader) + 2 + int (length C),
                      Padding = 0\<rparr>
                 (pre @ PeekLine_line reader @ post) = Some C"
    by (simp add: Value_def assms(4) nat_add_distrib)
qed

text \<open>The line \<^verbatim>\<open>$$x+y$$\<close>: one span, from 2 to 5, with the text \<^verbatim>\<open>x+y\<close>.\<close>

theorem Open_same_line_payload_witness:
  "''x+y'' \<noteq> [] \<and> hd ''x+y'' \<noteq> CHR ''$'' \<and> last ''x+y'' \<noteq> CHR ''$''
   \<and> Open \<lparr>PeekLine_line = ''$$x+y$$'',
            PeekLine_segment = \<lparr>Start = 0, Stop = 7, Padding = 0\<rparr>, calls = []\<rparr>
          \<lparr>BlockOffset = 0, store = Map.empty\<rparr>
     = Inr (Some \<lparr>Lines = [\<lparr>Start = 2, Stop = 5, Padding = 0\<rparr>]\<rparr>, parser_Close,
            \<lparr>BlockOffset = 0, store = Map.empty\<rparr>)
   \<and> Value \<lparr>Start = 2, Stop = 5, Padding = 0\<rparr> ''$$x+y$$'' = Some ''x+y''"
proof -
  let ?reader = "\<lparr>PeekLine_line = ''$$x+y$$'',
            PeekLine_segment = \<lparr>Start = 0, Stop = 7, Padding = 0\<rparr>, calls = []\<rparr>"
  let ?pc = "\<lparr>BlockOffset = 0, store = Map.empty\<rparr>"
  have h1: "''x+y'' \<noteq> []" by simp
  have h2: "hd ''x+y'' \<noteq> CHR ''$''" by simp
  have h3: "last ''x+y'' \<noteq> CHR ''$''" by simp
  have h4: "PeekLine_line ?reader = ''$$'' @ ''x+y'' @ ''$$''" by simp
  have h5: "BlockOffset ?pc = 0" by simp
  have "Start (PeekLine_segment ?reader) = int (length ([]::string))" by simp
  with Open_same_line_payload [OF h1 h2 h3 h4 h5] h1 h2 h3
  show ?thesis by (simp del: hd_Cons_tl last.simps)
qed

text \<open>
  The claim as first stated fails for \<open>C\<close> = \<^verbatim>\<open>x$\<close>, which contains no fence run at all:
  on \<^verbatim>\<open>$$x$$$\<close> the closing run takes the last three characters and the payload is
  \<^verbatim>\<open>x\<close>, not \<^verbatim>\<open>x$\<close>.
\<close>

theorem Open_same_line_payload_counterexample:
  "\<not> containsBlankTerminatedFence ''x$''
   \<and> Open \<lparr>PeekLine_line = ''$$x$$$'',
            PeekLine_segment = \<lparr>Start = 0, Stop = 7, Padding = 0\<rparr>, calls = []\<rparr>
          \<lparr>BlockOffset = 0, store = Map.empty\<rparr>
     = Inr (Some \<lparr>Lines = [\<lparr>Start = 2, Stop = 3, Padding = 0\<rparr>]\<rparr>, parser_Close,
            \<lparr>BlockOffset = 0, store = Map.empty\<rparr>)
   \<and> Value \<lparr>Start = 2, Stop = 3, Padding = 0\<rparr> ''$$x$$$'' = Some ''x''
   \<and> ''x'' \<noteq> ''x$''"
proof -
  have n: "\<not> containsBlankTerminatedFence ''x$''" by code_simp
  have sk: "skipFence ''$$x$$$'' 0 = 2" by code_simp
  have cp: "Open_closingPos ''x$$$'' 0 = 1" by code_simp
  have v: "Value \<lparr>Start = 2, Stop = 3, Padding = 0\<rparr> ''$$x$$$'' = Some ''x''"
    by (simp add: Value_def)
  show ?thesis
    by (simp add: n v Open_def Let_def sk cp NewMathBlock_def Lines_Append_def NewSegment_def)
qed

text \<open>
  C5. \<^verbatim>\<open>Open\<close> creates no node, leaves the context alone and does not panic when the
  entry column is \<open>-1\<close>, when it lies at or past the end of the line, or when the
  character there is not the fence character.
\<close>

theorem Open_not_applicable:
  "BlockOffset pc = -1 \<or> BlockOffset pc \<ge> int (length (PeekLine_line reader))
     \<or> (0 \<le> BlockOffset pc \<and> PeekLine_line reader ! nat (BlockOffset pc) \<noteq> CHR ''$'')
   \<Longrightarrow> Open reader pc = Inr (None, parser_NoChildren, pc)"
  by (auto simp: Open_def Let_def)

text \<open>
  The regression input \<^verbatim>\<open>"*foo\n  "\<close>: its first line at column 0, and its second line,
  two spaces, with no entry column and with the entry column at the end of the line.
\<close>

theorem Open_not_applicable_witness:
  "Open \<lparr>PeekLine_line = ''*foo'' @ [CHR 0x0A],
          PeekLine_segment = \<lparr>Start = 0, Stop = 5, Padding = 0\<rparr>, calls = []\<rparr>
        \<lparr>BlockOffset = 0, store = Map.empty\<rparr>
     = Inr (None, parser_NoChildren, \<lparr>BlockOffset = 0, store = Map.empty\<rparr>)
   \<and> Open \<lparr>PeekLine_line = ''  '',
            PeekLine_segment = \<lparr>Start = 5, Stop = 7, Padding = 0\<rparr>, calls = []\<rparr>
          \<lparr>BlockOffset = -1, store = Map.empty\<rparr>
     = Inr (None, parser_NoChildren, \<lparr>BlockOffset = -1, store = Map.empty\<rparr>)
   \<and> Open \<lparr>PeekLine_line = ''  '',
            PeekLine_segment = \<lparr>Start = 5, Stop = 7, Padding = 0\<rparr>, calls = []\<rparr>
          \<lparr>BlockOffset = 2, store = Map.empty\<rparr>
     = Inr (None, parser_NoChildren, \<lparr>BlockOffset = 2, store = Map.empty\<rparr>)"
  using
    Open_not_applicable [of "\<lparr>BlockOffset = 0, store = Map.empty\<rparr>"
      "\<lparr>PeekLine_line = ''*foo'' @ [CHR 0x0A],
         PeekLine_segment = \<lparr>Start = 0, Stop = 5, Padding = 0\<rparr>, calls = []\<rparr>"]
    Open_not_applicable [of "\<lparr>BlockOffset = -1, store = Map.empty\<rparr>"
      "\<lparr>PeekLine_line = ''  '',
         PeekLine_segment = \<lparr>Start = 5, Stop = 7, Padding = 0\<rparr>, calls = []\<rparr>"]
    Open_not_applicable [of "\<lparr>BlockOffset = 2, store = Map.empty\<rparr>"
      "\<lparr>PeekLine_line = ''  '',
         PeekLine_segment = \<lparr>Start = 5, Stop = 7, Padding = 0\<rparr>, calls = []\<rparr>"]
  by simp

section \<open>Properties of Continue and Close\<close>

text \<open>
  C4. When the context holds nothing under \<^verbatim>\<open>mathBlockInfoKey\<close>, \<^verbatim>\<open>Continue\<close> reports
  the block closed at once: the node keeps its spans and the reader is not advanced.
\<close>

theorem Continue_state_absent:
  "pc_Get pc mathBlockInfoKey = None \<Longrightarrow> Continue node reader pc = Inr (parser_Close, node, reader)"
  by (simp add: Continue_def)

theorem Continue_state_absent_witness:
  "pc_Get \<lparr>BlockOffset = 0, store = Map.empty\<rparr> mathBlockInfoKey = None
   \<and> Continue \<lparr>Lines = [\<lparr>Start = 2, Stop = 5, Padding = 0\<rparr>]\<rparr>
        \<lparr>PeekLine_line = ''x+y'',
           PeekLine_segment = \<lparr>Start = 6, Stop = 9, Padding = 0\<rparr>, calls = []\<rparr>
        \<lparr>BlockOffset = 0, store = Map.empty\<rparr>
     = Inr (parser_Close, \<lparr>Lines = [\<lparr>Start = 2, Stop = 5, Padding = 0\<rparr>]\<rparr>,
            \<lparr>PeekLine_line = ''x+y'',
               PeekLine_segment = \<lparr>Start = 6, Stop = 9, Padding = 0\<rparr>, calls = []\<rparr>)"
proof -
  have h: "pc_Get \<lparr>BlockOffset = 0, store = Map.empty\<rparr> mathBlockInfoKey = None"
    by (simp add: pc_Get_def)
  show ?thesis using h Continue_state_absent [OF h] by simp
qed




text \<open>
  C3, as amended. With the per-block state present and whatever stands in front of the
  run, so whatever the indentation width of the line: when the line is some text that
  does not end in a fence character, then a run of at least two fence characters, then
  only spaces, tabs, line feeds and carriage returns, the scan of the whole line finds
  the run, its position being the length of that text, and \<^verbatim>\<open>Continue\<close> closes the block
  on this line. It appends the span from the dedented start to the run exactly when the
  run lies after the dedented start and the text in front of it is not just fewer than
  four spaces; a line of that kind is a closing fence at its start and closes the block
  with nothing appended. The reader is asked to advance by the segment's stop less its
  start less its padding.
\<close>

theorem Continue_closes_on_fence_line:
  assumes "pc_Get pc mathBlockInfoKey = Some (BlockData data)"
    and "PeekLine_line reader = pre @ replicate n (CHR ''$'') @ tail"
    and "pre = [] \<or> last pre \<noteq> CHR ''$''" and "2 \<le> n"
    and "set tail \<subseteq> {CHR '' '', CHR 0x09, CHR 0x0A, CHR 0x0D}"
    and "DedentPosition (PeekLine_line reader) 0 (indent data) = (pos, padding)"
  shows "Continue_closingPos (PeekLine_line reader) 0 = int (length pre)
         \<and> Continue node reader pc
         = Inr (parser_Close,
                (if \<not> (length pre < 4 \<and> pre = replicate (length pre) (CHR '' ''))
                    \<and> length pre > pos
                 then node\<lparr>Lines := Lines node @
                        [\<lparr>Start = Start (PeekLine_segment reader) + int pos,
                          Stop = Start (PeekLine_segment reader) + int (length pre),
                          Padding = padding\<rparr>]\<rparr>
                 else node),
                reader\<lparr>calls := calls reader @
                  [Advance (Stop (PeekLine_segment reader) - Start (PeekLine_segment reader)
                            - Padding (PeekLine_segment reader))]\<rparr>)"
proof -
  let ?line = "PeekLine_line reader"
  have bl: "IsBlank tail" using assms(5) by (rule whitespace_blank)
  have cp: "Continue_closingPos ?line 0 = int (length pre)"
    using assms(2,3,4) bl by (rule Continue_closingPos_run) simp
  have cf: "closingFenceAtStart ?line
            \<longleftrightarrow> (length pre < 4 \<and> pre = replicate (length pre) (CHR '' ''))"
  proof
    assume "closingFenceAtStart ?line"
    with assms(2,3,4) show "length pre < 4 \<and> pre = replicate (length pre) (CHR '' '')"
      by (rule closingFenceAtStart_only_spaces)
  next
    assume a: "length pre < 4 \<and> pre = replicate (length pre) (CHR '' '')"
    then have "?line = replicate (length pre) (CHR '' '') @ replicate n (CHR ''$'') @ tail"
      using assms(2) by simp
    with a assms(4) bl show "closingFenceAtStart ?line"
      by (intro closingFenceAtStart_spaces [of ?line "length pre" n tail]) simp_all
  qed
  show ?thesis
  proof (cases "closingFenceAtStart ?line")
    case True
    with cf assms(1) cp show ?thesis
      by (simp add: Continue_def reader_Advance_def Let_def)
  next
    case False
    with cf assms(1,6) cp show ?thesis
      by (simp add: Continue_def reader_Advance_def Lines_Append_def NewSegmentPadding_def
          Let_def)
  qed
qed

text \<open>
  A line indented by five columns, \<^verbatim>\<open>"     x $$"\<close>, with baseline 0: the scan finds the
  fence at 7 and the span from the dedented start to 7 is appended.
\<close>

theorem Continue_closes_on_fence_line_witness:
  "pc_Get \<lparr>BlockOffset = 0, store = [mathBlockInfoKey \<mapsto> BlockData \<lparr>indent = 0\<rparr>]\<rparr>
       mathBlockInfoKey = Some (BlockData \<lparr>indent = 0\<rparr>)
   \<and> ''     x $$'' = ''     x '' @ replicate 2 (CHR ''$'') @ []
   \<and> (''     x '' = [] \<or> last ''     x '' \<noteq> CHR ''$'') \<and> (2::nat) \<le> 2
   \<and> set [] \<subseteq> {CHR '' '', CHR 0x09, CHR 0x0A, CHR 0x0D}
   \<and> DedentPosition ''     x $$'' 0 0 = (0, 0)
   \<and> Continue_closingPos ''     x $$'' 0 = 7
   \<and> Continue \<lparr>Lines = []\<rparr>
        \<lparr>PeekLine_line = ''     x $$'',
           PeekLine_segment = \<lparr>Start = 3, Stop = 12, Padding = 0\<rparr>, calls = []\<rparr>
        \<lparr>BlockOffset = 0, store = [mathBlockInfoKey \<mapsto> BlockData \<lparr>indent = 0\<rparr>]\<rparr>
     = Inr (parser_Close, \<lparr>Lines = [\<lparr>Start = 3, Stop = 10, Padding = 0\<rparr>]\<rparr>,
            \<lparr>PeekLine_line = ''     x $$'',
               PeekLine_segment = \<lparr>Start = 3, Stop = 12, Padding = 0\<rparr>,
               calls = [Advance 9]\<rparr>)"
proof -
  let ?reader = "\<lparr>PeekLine_line = ''     x $$'',
           PeekLine_segment = \<lparr>Start = 3, Stop = 12, Padding = 0\<rparr>, calls = []\<rparr>"
  have h1: "pc_Get \<lparr>BlockOffset = 0, store = [mathBlockInfoKey \<mapsto> BlockData \<lparr>indent = 0\<rparr>]\<rparr>
       mathBlockInfoKey = Some (BlockData \<lparr>indent = 0\<rparr>)"
    by (simp add: pc_Get_def)
  have sh: "''     x $$'' = ''     x '' @ replicate 2 (CHR ''$'') @ []"
    by (simp add: numeral_2_eq_2)
  then have h2: "PeekLine_line ?reader = ''     x '' @ replicate 2 (CHR ''$'') @ []" by simp
  have h3: "''     x '' = [] \<or> last ''     x '' \<noteq> CHR ''$''" by simp
  have h4: "(2::nat) \<le> 2" by simp
  have h5: "set ([]::string) \<subseteq> {CHR '' '', CHR 0x09, CHR 0x0A, CHR 0x0D}" by simp
  have d: "DedentPosition ''     x $$'' 0 0 = (0, 0)"
    by (simp add: DedentPosition_def)
  then have h6: "DedentPosition (PeekLine_line ?reader) 0 (indent \<lparr>indent = 0\<rparr>) = (0, 0)"
    by simp
  have ns: "''     x '' \<noteq> replicate 7 (CHR '' '')" by (simp add: numeral_eq_Suc)
  show ?thesis
    using h1 sh h3 h4 h5 d ns
      Continue_closes_on_fence_line [OF h1 h2 h3 h4 h5 h6, of "\<lparr>Lines = []\<rparr>"]
    by simp
qed

text \<open>
  The claim as first stated fails on the line \<^verbatim>\<open>"  $$"\<close> with baseline 0: the scan of
  the whole line finds the fence at position 2, which lies after the dedented start 0,
  and yet no span is appended.
\<close>

theorem Continue_rescan_span_counterexample:
  "Continue_closingPos ''  $$'' 0 = 2
   \<and> DedentPosition ''  $$'' 0 0 = (0, 0)
   \<and> Continue \<lparr>Lines = []\<rparr>
        \<lparr>PeekLine_line = ''  $$'',
           PeekLine_segment = \<lparr>Start = 3, Stop = 7, Padding = 0\<rparr>, calls = []\<rparr>
        \<lparr>BlockOffset = 0, store = [mathBlockInfoKey \<mapsto> BlockData \<lparr>indent = 0\<rparr>]\<rparr>
     = Inr (parser_Close, \<lparr>Lines = []\<rparr>,
            \<lparr>PeekLine_line = ''  $$'',
               PeekLine_segment = \<lparr>Start = 3, Stop = 7, Padding = 0\<rparr>,
               calls = [Advance 4]\<rparr>)"
proof -
  have cp: "Continue_closingPos ''  $$'' 0 = 2" by code_simp
  have d: "DedentPosition ''  $$'' 0 0 = (0, 0)"
    by (simp add: DedentPosition_def)
  have f: "closingFenceAtStart ''  $$''" by code_simp
  show ?thesis
    by (simp add: cp d f Continue_def pc_Get_def reader_Advance_def Let_def)
qed

text \<open>
  C9. After \<^verbatim>\<open>Close\<close> the context holds nothing under \<^verbatim>\<open>mathBlockInfoKey\<close>, whatever it
  held before, and a \<^verbatim>\<open>Continue\<close> that runs on that context, for any node and line,
  finds the state absent and reports closed without touching node or reader.
\<close>

theorem Close_clears_state:
  "pc_Get (Close node reader pc) mathBlockInfoKey = None
   \<and> Continue node' reader' (Close node reader pc) = Inr (parser_Close, node', reader')"
  by (simp add: Close_def pc_Get_def pc_Set_def Continue_def)

section \<open>The opening fence stays outside every span\<close>

text \<open>
  C7. Every span that \<^verbatim>\<open>Open\<close> puts into the node it returns starts at or after the end
  of the opening run of fence characters: the segment's start plus the index just behind
  the run, which is the run's end in the source when the segment has no padding and lies
  behind it otherwise. \<^verbatim>\<open>Continue\<close> keeps every lower bound on the starts of the node's
  spans that is also a lower bound of the start of the line it is given; the host feeds
  the lines in source order, so the end of the opening run is such a bound for every
  later line.
\<close>

theorem spans_start_after_opening_fence:
  "(Open reader0 pc0 = Inr (Some node0, st0, pc1) \<longrightarrow>
      (\<forall>s \<in> set (Lines node0).
         Start (PeekLine_segment reader0)
           + int (skipFence (PeekLine_line reader0) (nat (BlockOffset pc0))) \<le> Start s))
   \<and> (Continue node reader pc = Inr (st, node', reader')
        \<and> b \<le> Start (PeekLine_segment reader) \<and> (\<forall>s \<in> set (Lines node). b \<le> Start s) \<longrightarrow>
      (\<forall>s \<in> set (Lines node'). b \<le> Start s))"
proof (intro conjI impI)
  assume "Open reader0 pc0 = Inr (Some node0, st0, pc1)"
  then show "\<forall>s \<in> set (Lines node0).
         Start (PeekLine_segment reader0)
           + int (skipFence (PeekLine_line reader0) (nat (BlockOffset pc0))) \<le> Start s"
    by (auto simp: Open_def Let_def NewMathBlock_def Lines_Append_def NewSegment_def
        split: if_splits)
next
  assume "Continue node reader pc = Inr (st, node', reader')
        \<and> b \<le> Start (PeekLine_segment reader) \<and> (\<forall>s \<in> set (Lines node). b \<le> Start s)"
  then show "\<forall>s \<in> set (Lines node'). b \<le> Start s"
    by (auto simp: Continue_def Let_def Lines_Append_def NewSegmentPadding_def
        split: option.splits ContextValue.splits if_splits prod.splits)
qed

theorem spans_start_after_opening_fence_witness:
  "Open \<lparr>PeekLine_line = ''$$a'',
          PeekLine_segment = \<lparr>Start = 0, Stop = 3, Padding = 0\<rparr>, calls = []\<rparr>
        \<lparr>BlockOffset = 0, store = Map.empty\<rparr>
     = Inr (Some \<lparr>Lines = [\<lparr>Start = 2, Stop = 3, Padding = 0\<rparr>]\<rparr>, parser_NoChildren,
            \<lparr>BlockOffset = 0, store = [mathBlockInfoKey \<mapsto> BlockData \<lparr>indent = 0\<rparr>]\<rparr>)
   \<and> skipFence ''$$a'' 0 = 2
   \<and> Continue \<lparr>Lines = [\<lparr>Start = 2, Stop = 3, Padding = 0\<rparr>]\<rparr>
        \<lparr>PeekLine_line = ''b'',
           PeekLine_segment = \<lparr>Start = 4, Stop = 5, Padding = 0\<rparr>, calls = []\<rparr>
        \<lparr>BlockOffset = 0, store = [mathBlockInfoKey \<mapsto> BlockData \<lparr>indent = 0\<rparr>]\<rparr>
     = Inr (parser_Continue_NoChildren,
            \<lparr>Lines = [\<lparr>Start = 2, Stop = 3, Padding = 0\<rparr>, \<lparr>Start = 4, Stop = 5, Padding = 0\<rparr>]\<rparr>,
            \<lparr>PeekLine_line = ''b'',
               PeekLine_segment = \<lparr>Start = 4, Stop = 5, Padding = 0\<rparr>,
               calls = [AdvanceAndSetPadding 0 0]\<rparr>)
   \<and> (2::int) \<le> Start \<lparr>Start = 2, Stop = 3, Padding = 0\<rparr>
   \<and> (2::int) \<le> Start \<lparr>Start = 4, Stop = 5, Padding = 0\<rparr>"
proof -
  let ?r0 = "\<lparr>PeekLine_line = ''$$a'',
          PeekLine_segment = \<lparr>Start = 0, Stop = 3, Padding = 0\<rparr>, calls = []\<rparr>"
  let ?pc0 = "\<lparr>BlockOffset = 0, store = Map.empty\<rparr>"
  let ?pc1 = "\<lparr>BlockOffset = 0, store = [mathBlockInfoKey \<mapsto> BlockData \<lparr>indent = 0\<rparr>]\<rparr>"
  let ?n0 = "\<lparr>Lines = [\<lparr>Start = 2, Stop = 3, Padding = 0\<rparr>]\<rparr>"
  let ?r1 = "\<lparr>PeekLine_line = ''b'',
           PeekLine_segment = \<lparr>Start = 4, Stop = 5, Padding = 0\<rparr>, calls = []\<rparr>"
  let ?n1 = "\<lparr>Lines = [\<lparr>Start = 2, Stop = 3, Padding = 0\<rparr>, \<lparr>Start = 4, Stop = 5, Padding = 0\<rparr>]\<rparr>"
  let ?r2 = "\<lparr>PeekLine_line = ''b'',
               PeekLine_segment = \<lparr>Start = 4, Stop = 5, Padding = 0\<rparr>,
               calls = [AdvanceAndSetPadding 0 0]\<rparr>"
  have sk: "skipFence ''$$a'' 0 = 2" by code_simp
  have sc: "Open_closingPos ''a'' 0 = -1" by code_simp
  have o: "Open ?r0 ?pc0 = Inr (Some ?n0, parser_NoChildren, ?pc1)"
    by (simp add: Open_def Let_def sk sc NewMathBlock_def pc_Set_def Lines_Append_def
        NewSegment_def IsBlank_def IsSpace_def)
  have f: "closingFenceAtStart ''b'' = False" by code_simp
  have cs: "Continue_closingPos ''b'' 0 = -1" by code_simp
  have c: "Continue ?n0 ?r1 ?pc1 = Inr (parser_Continue_NoChildren, ?n1, ?r2)"
    by (simp add: Continue_def Let_def f cs pc_Get_def DedentPosition_def
        NewSegmentPadding_def Lines_Append_def reader_AdvanceAndSetPadding_def)
  show ?thesis
    using o sk c
      spans_start_after_opening_fence [where ?reader0.0 = ?r0 and ?pc0.0 = ?pc0
        and ?node0.0 = ?n0 and ?st0.0 = parser_NoChildren and ?pc1.0 = ?pc1
        and node = ?n0 and reader = ?r1 and pc = ?pc1 and st = parser_Continue_NoChildren
        and node' = ?n1 and reader' = ?r2 and b = 2]
    by simp
qed

section \<open>The two scans\<close>

text \<open>
  C10. The scan in \<^verbatim>\<open>Open\<close> and the scan in \<^verbatim>\<open>Continue\<close> are the same function of the
  bytes they are given: from every starting position, and so from position 0 where both
  start, they return the same closing position, or both \<open>-1\<close> for not found.
\<close>

theorem Open_scan_eq_Continue_scan: "Open_closingPos bs j = Continue_closingPos bs j"
proof (induction bs j rule: Open_closingPos.induct)
  case (1 bs j)
  show ?case
    by (subst Open_closingPos.simps, subst Continue_closingPos.simps) (use "1" in auto)
qed

text \<open>
  C8. Both loops return on every line and from every position: the partial versions
  always have a value, the one computed by the counting loop and by the scans of
  \<^verbatim>\<open>Open\<close> and \<^verbatim>\<open>Continue\<close>. The position at which the scan resumes behind an examined
  run lies strictly after the position where the run started, and within the line.
\<close>

theorem fence_scan_terminates:
  "fenceRun_loop bs i = Some (skipFence bs i)
   \<and> fenceScan_loop bs j = Some (Open_closingPos bs j)
   \<and> fenceScan_loop bs j = Some (Continue_closingPos bs j)
   \<and> (j < length bs \<and> bs ! j = CHR ''$'' \<longrightarrow>
        j < Suc (skipFence bs j - 1) \<and> Suc (skipFence bs j - 1) \<le> length bs)"
proof (intro conjI impI)
  show "fenceRun_loop bs i = Some (skipFence bs i)" by (rule fenceRun_loop_returns)
  show "fenceScan_loop bs j = Some (Open_closingPos bs j)" by (rule fenceScan_loop_returns_Open)
  show "fenceScan_loop bs j = Some (Continue_closingPos bs j)"
    by (rule fenceScan_loop_returns_Continue)
next
  assume a: "j < length bs \<and> bs ! j = CHR ''$''"
  then have "j < skipFence bs j" by (simp add: skipFence_gt)
  then show "j < Suc (skipFence bs j - 1)" by simp
  from a have "skipFence bs j \<le> length bs" by (simp add: skipFence_le)
  with \<open>j < skipFence bs j\<close> show "Suc (skipFence bs j - 1) \<le> length bs" by simp
qed

theorem fence_scan_terminates_witness:
  "fenceRun_loop ''a$$b$$'' 1 = Some 3
   \<and> fenceScan_loop ''a$$b$$'' 0 = Some 4
   \<and> Open_closingPos ''a$$b$$'' 0 = 4 \<and> Continue_closingPos ''a$$b$$'' 0 = 4
   \<and> (1::nat) < length ''a$$b$$'' \<and> ''a$$b$$'' ! 1 = CHR ''$''
   \<and> (1::nat) < Suc (skipFence ''a$$b$$'' 1 - 1) \<and> Suc (skipFence ''a$$b$$'' 1 - 1) \<le> length ''a$$b$$''"
proof -
  have sk: "skipFence ''a$$b$$'' (Suc 0) = 3" by code_simp
  have o: "Open_closingPos ''a$$b$$'' 0 = 4" by code_simp
  have c: "Continue_closingPos ''a$$b$$'' 0 = 4" by code_simp
  show ?thesis
    using fence_scan_terminates [of "''a$$b$$''" 1 1] fence_scan_terminates [of "''a$$b$$''" 1 0]
    by (simp add: sk o c)
qed

end
